theory Spec2Isabelle
  imports Main
begin

section \<open>Tokens of a parsed sentence\<close>

text \<open>
  The program reads parsed tokens: each token has the string attributes \<open>pos_\<close>,
  \<open>dep_\<close>, \<open>lemma_\<close> and \<open>orth_\<close>, a collection \<open>children\<close> of tokens, and
  is compared with other tokens by its position in the document. A token is embedded as
  a node of a finitely branching tree: \<open>tid\<close> is the position in the document, the four
  strings are the attributes, \<open>children\<close> the immediate syntactic children in order.
  Where the program compares tokens (\<open>token in chain2\<close>, \<open>chain2.index\<close>, the
  comparison of two lists of tokens) the embedding compares the nodes; in a well-formed
  tree, where positions are unique, two nodes are equal exactly when their positions are.
\<close>

datatype token =
  Token (tid: nat) (t_pos: string) (t_dep: string) (t_lemma: string) (t_orth: string)
        (children: "token list")

text \<open>The names of the attributes a node pattern may mention (\<open>getattr(node, name + "_")\<close>).\<close>

datatype attr = Pos | Dep | Lemma | Orth

fun getattr :: "token \<Rightarrow> attr \<Rightarrow> string" where
  "getattr node Pos = t_pos node"
| "getattr node Dep = t_dep node"
| "getattr node Lemma = t_lemma node"
| "getattr node Orth = t_orth node"

text \<open>A node pattern is a dictionary from attribute names to values, read through its items.\<close>

type_synonym node_pattern = "(attr \<times> string) list"

text \<open>
  A pattern is the dictionary with the keys \<open>common_ancestor\<close>, \<open>branch1\<close> and
  \<open>branch2\<close>.
\<close>

record pattern =
  common_ancestor :: node_pattern
  p_branch1 :: "node_pattern list"
  p_branch2 :: "node_pattern list"

text \<open>A sentence gives access to the root token of its tree.\<close>

record sentence =
  root :: token

section \<open>Ancestor chains\<close>

text \<open>
  All tokens below a token, the token itself first (depth first, children in order).
\<close>

fun nodes :: "token \<Rightarrow> token list" where
  "nodes (Token i p d l orth cs) = Token i p d l orth cs # concat (map nodes cs)"

text \<open>
  The parser's \<open>token.ancestors\<close> yields the head of a token, then the head of the head,
  up to the root of the sentence. Over the tree of a sentence it is the path from the root
  down to the token, read backwards and without the token itself. \<open>path_to\<close> searches
  that path, tokens being identified by their position \<open>tid\<close>; it is empty when the token
  does not occur below the root.
\<close>

fun first_nonempty :: "'a list list \<Rightarrow> 'a list" where
  "first_nonempty [] = []"
| "first_nonempty (p # ps) = (if p = [] then first_nonempty ps else p)"

fun path_to :: "token \<Rightarrow> token \<Rightarrow> token list" where
  "path_to (Token i p d l orth cs) t =
     (if i = tid t then [Token i p d l orth cs]
      else (case first_nonempty (map (\<lambda>c. path_to c t) cs) of
              [] \<Rightarrow> []
            | q # qs \<Rightarrow> Token i p d l orth cs # q # qs))"

definition ancestors :: "token \<Rightarrow> token \<Rightarrow> token list" where
  "ancestors r t = tl (rev (path_to r t))"

text \<open>A tree is well formed when no two of its tokens share a position.\<close>

definition well_formed :: "token \<Rightarrow> bool" where
  "well_formed r = distinct (map tid (nodes r))"

section \<open>Relationship\<close>

datatype error =
    UnrelatedTokens      \<comment> \<open>ValueError: the two tokens are unrelated\<close>
  | AmbiguousChain       \<comment> \<open>ValueError: ambiguity about the chain before it forks\<close>
  | NotInList            \<comment> \<open>ValueError of \<open>list.index\<close>\<close>
  | IndexError           \<comment> \<open>indexing an empty list\<close>

record 'a relationship =
  token1 :: 'a
  token2 :: 'a
  common_ancestors :: "'a list"
  branch1 :: "'a list"
  branch2 :: "'a list"

text \<open>
  The loop \<open>for i, token in enumerate(chain1): if token in chain2: i1 = i; break\<close>:
  the index of the first element of \<open>chain1\<close> that occurs in \<open>chain2\<close>; \<open>None\<close> when
  the loop ends without binding \<open>i1\<close>.
\<close>

fun first_common :: "'a list \<Rightarrow> 'a list \<Rightarrow> nat option" where
  "first_common [] chain2 = None"
| "first_common (token # rest) chain2 =
     (if token \<in> set chain2 then Some 0 else map_option Suc (first_common rest chain2))"

text \<open>\<open>list.index\<close>: the position of the first element equal to \<open>x\<close>.\<close>

fun index :: "'a list \<Rightarrow> 'a \<Rightarrow> nat option" where
  "index [] x = None"
| "index (y # ys) x = (if y = x then Some 0 else map_option Suc (index ys x))"

text \<open>
  \<open>find_relationship\<close>, with the parser's \<open>ancestors\<close> as the parameter \<open>anc\<close>. The
  result is the triple (common ancestors, branch1, branch2).
\<close>

definition find_relationship ::
  "('a \<Rightarrow> 'a list) \<Rightarrow> 'a \<Rightarrow> 'a \<Rightarrow> error + ('a list \<times> 'a list \<times> 'a list)" where
  "find_relationship anc t1 t2 =
     (let chain1 = t1 # anc t1;
          chain2 = t2 # anc t2
      in case first_common chain1 chain2 of
           None \<Rightarrow> Inl UnrelatedTokens
         | Some i1 \<Rightarrow>
             (case index chain2 (chain1 ! i1) of
                None \<Rightarrow> Inl NotInList
              | Some i2 \<Rightarrow>
                  (let b1 = rev (take i1 chain1);
                       b2 = rev (take i2 chain2)
                   in if drop i1 chain1 \<noteq> drop i2 chain2 then Inl AmbiguousChain
                      else Inr (rev (drop i1 chain1), b1, b2))))"

text \<open>The constructor \<open>Relationship(token1, token2)\<close>.\<close>

definition Relationship :: "('a \<Rightarrow> 'a list) \<Rightarrow> 'a \<Rightarrow> 'a \<Rightarrow> error + 'a relationship" where
  "Relationship anc t1 t2 =
     (case find_relationship anc t1 t2 of
        Inl e \<Rightarrow> Inl e
      | Inr (ca, b1, b2) \<Rightarrow>
          Inr \<lparr>token1 = t1, token2 = t2, common_ancestors = ca, branch1 = b1, branch2 = b2\<rparr>)"

text \<open>\<open>forking_node\<close> is \<open>common_ancestors[-1]\<close>.\<close>

definition forking_node :: "'a relationship \<Rightarrow> error + 'a" where
  "forking_node r =
     (if common_ancestors r = [] then Inl IndexError else Inr (last (common_ancestors r)))"

text \<open>
  \<open>matching_pattern\<close>. As in the source, the entry \<open>branch2\<close> is built from
  \<open>self.branch1\<close>.
\<close>

definition matching_pattern :: "token relationship \<Rightarrow> error + pattern" where
  "matching_pattern r =
     (case forking_node r of
        Inl e \<Rightarrow> Inl e
      | Inr f \<Rightarrow>
          Inr \<lparr>common_ancestor = [(Pos, t_pos f), (Lemma, t_lemma f)],
               p_branch1 = map (\<lambda>node. [(Pos, t_pos node), (Dep, t_dep node)]) (branch1 r),
               p_branch2 = map (\<lambda>node. [(Pos, t_pos node), (Dep, t_dep node)]) (branch1 r)\<rparr>)"

section \<open>Pattern matching\<close>

definition match_node_pattern :: "token \<Rightarrow> node_pattern \<Rightarrow> bool" where
  "match_node_pattern node pat = list_all (\<lambda>(attribute, v). getattr node attribute = v) pat"

fun search_sentence_for_node :: "token \<Rightarrow> node_pattern \<Rightarrow> token list" where
  "search_sentence_for_node (Token i p d l orth cs) node_pattern =
     (if match_node_pattern (Token i p d l orth cs) node_pattern
      then [Token i p d l orth cs] else [])
     @ concat (map (\<lambda>child. search_sentence_for_node child node_pattern) cs)"

fun follow_branch :: "token \<Rightarrow> node_pattern list \<Rightarrow> int" where
  "follow_branch node [] = 1"
| "follow_branch node (b # bs) =
     (let matches = filter (\<lambda>child. match_node_pattern child b) (children node)
      in if matches = [] then 0
         else 0 + sum_list (map (\<lambda>m. follow_branch m bs) matches))"

definition search_sentence_for_pattern :: "sentence \<Rightarrow> pattern \<Rightarrow> int" where
  "search_sentence_for_pattern sent pat =
     fold (\<lambda>com_anc_match matches.
             matches + follow_branch com_anc_match (p_branch1 pat)
                     * follow_branch com_anc_match (p_branch2 pat))
          (search_sentence_for_node (root sent) (common_ancestor pat)) 0"

section \<open>Paths in the tree\<close>

text \<open>
  \<open>descent node path\<close>: \<open>path\<close> starts at a child of \<open>node\<close> and every later element
  is a child of the one before it.
\<close>

fun descent :: "token \<Rightarrow> token list \<Rightarrow> bool" where
  "descent node [] = True"
| "descent node (c # cs) = (c \<in> set (children node) \<and> descent c cs)"

section \<open>Example data\<close>

text \<open>
  The parse of the sentence "Balderton raised money for the startup": the verb is the root,
  with the subject, the object and the preposition below it.
\<close>

definition ex_the :: token where
  "ex_the = Token 4 ''DET'' ''det'' ''the'' ''the'' []"
definition ex_startup :: token where
  "ex_startup = Token 5 ''NOUN'' ''pobj'' ''startup'' ''startup'' [ex_the]"
definition ex_for :: token where
  "ex_for = Token 3 ''ADP'' ''prep'' ''for'' ''for'' [ex_startup]"
definition ex_money :: token where
  "ex_money = Token 2 ''NOUN'' ''dobj'' ''money'' ''money'' []"
definition ex_balderton :: token where
  "ex_balderton = Token 0 ''PROPN'' ''nsubj'' ''balderton'' ''Balderton'' []"
definition ex_raise :: token where
  "ex_raise = Token 1 ''VERB'' ''ROOT'' ''raise'' ''raised'' [ex_balderton, ex_money, ex_for]"

text \<open>
  Two ancestor functions over token positions that do not come from one tree: in
  \<open>ex_heads\<close> the tokens 0, 1, 2 and the tokens 4, 5, 6 belong to two different
  sentences; in \<open>ex_broken\<close> the chains of 0 and 3 meet at 1 and continue differently.
\<close>

definition ex_heads :: "nat \<Rightarrow> nat list" where
  "ex_heads n = (if n = 0 then [1] else if n = 2 then [1] else if n = 4 then [5]
                 else if n = 6 then [5] else [])"

definition ex_broken :: "nat \<Rightarrow> nat list" where
  "ex_broken n = (if n = 0 then [1, 2] else if n = 3 then [1, 7] else [])"

section \<open>The count in the words of the specification\<close>

text \<open>
  A descent path from a fork for a branch specification is a sequence of tokens, as long
  as the specification, that starts at a child of the fork, continues from each token to
  one of its children, and whose tokens match the entries of the specification in order.
  This definition follows the specification, not the code; the count of the code is
  compared with the number of these paths.
\<close>

definition descent_paths :: "token \<Rightarrow> node_pattern list \<Rightarrow> token list set" where
  "descent_paths fork spec = {path. descent fork path \<and> list_all2 match_node_pattern path spec}"




text \<open>
  More example data: the sentence of the first example; a sentence whose verb has a
  subject and two objects; the same sentence with other positions and other literal text;
  the pattern of the specification's scenario, one whose first branch asks for an
  adjective and one whose common ancestor names the literal text; the relationship of the
  subject and the object of the first example and the pattern the program builds from it.
\<close>

definition ex_sentence :: sentence where
  "ex_sentence = \<lparr>root = ex_raise\<rparr>"

definition ex2_investor :: token where
  "ex2_investor = Token 0 ''NOUN'' ''nsubj'' ''investor'' ''Investors'' []"
definition ex2_fund :: token where
  "ex2_fund = Token 2 ''NOUN'' ''dobj'' ''fund'' ''funds'' []"
definition ex2_hope :: token where
  "ex2_hope = Token 3 ''NOUN'' ''dobj'' ''hope'' ''hopes'' []"
definition ex2_raise :: token where
  "ex2_raise = Token 1 ''VERB'' ''ROOT'' ''raise'' ''raise'' [ex2_investor, ex2_fund, ex2_hope]"
definition ex2_sentence :: sentence where
  "ex2_sentence = \<lparr>root = ex2_raise\<rparr>"

definition ex3_sentence :: sentence where
  "ex3_sentence = \<lparr>root = Token 11 ''VERB'' ''ROOT'' ''raise'' ''RAISED''
     [Token 10 ''NOUN'' ''nsubj'' ''investor'' ''INVESTOR'' [],
      Token 12 ''NOUN'' ''dobj'' ''fund'' ''FUND'' [],
      Token 13 ''NOUN'' ''dobj'' ''hope'' ''HOPE'' []]\<rparr>"

definition ex_pattern :: pattern where
  "ex_pattern = \<lparr>common_ancestor = [(Pos, ''VERB''), (Lemma, ''raise'')],
                  p_branch1 = [[(Pos, ''NOUN''), (Dep, ''nsubj'')]],
                  p_branch2 = [[(Pos, ''NOUN''), (Dep, ''dobj'')]]\<rparr>"

definition ex_pattern_amod :: pattern where
  "ex_pattern_amod = \<lparr>common_ancestor = [(Pos, ''VERB''), (Lemma, ''raise'')],
                  p_branch1 = [[(Pos, ''ADJ''), (Dep, ''amod'')]],
                  p_branch2 = [[(Pos, ''NOUN''), (Dep, ''dobj'')]]\<rparr>"



definition ex_rel :: "token relationship" where
  "ex_rel = \<lparr>token1 = ex_balderton, token2 = ex_money, common_ancestors = [ex_raise],
             branch1 = [ex_balderton], branch2 = [ex_money]\<rparr>"

section \<open>Properties\<close>

subsection \<open>The two searches of \<open>find_relationship\<close>\<close>

lemma first_common_None_iff: "first_common c1 c2 = None \<longleftrightarrow> set c1 \<inter> set c2 = {}"
  by (induction c1) auto

lemma first_common_split:
  "first_common c1 c2 = Some i1 \<Longrightarrow>
   \<exists>pre f suf. c1 = pre @ f # suf \<and> length pre = i1 \<and> f \<in> set c2 \<and> set pre \<inter> set c2 = {}"
proof (induction c1 arbitrary: i1)
  case Nil
  then show ?case by simp
next
  case (Cons x xs)
  show ?case
  proof (cases "x \<in> set c2")
    case True
    with Cons.prems have "i1 = 0" by simp
    with True show ?thesis by (intro exI[of _ "[]"] exI[of _ x] exI[of _ xs]) simp
  next
    case False
    with Cons.prems obtain j where j: "first_common xs c2 = Some j" "i1 = Suc j" by auto
    from Cons.IH[OF j(1)] obtain pre f suf where
      "xs = pre @ f # suf" "length pre = j" "f \<in> set c2" "set pre \<inter> set c2 = {}" by blast
    with False j(2) show ?thesis
      by (intro exI[of _ "x # pre"] exI[of _ f] exI[of _ suf]) simp
  qed
qed

lemma index_None_iff: "index ys x = None \<longleftrightarrow> x \<notin> set ys"
  by (induction ys) auto

lemma index_split:
  "index ys x = Some i2 \<Longrightarrow> \<exists>pre suf. ys = pre @ x # suf \<and> length pre = i2 \<and> x \<notin> set pre"
proof (induction ys arbitrary: i2)
  case Nil
  then show ?case by simp
next
  case (Cons y ys)
  show ?case
  proof (cases "y = x")
    case True
    with Cons.prems have "i2 = 0" by simp
    with True show ?thesis by (intro exI[of _ "[]"] exI[of _ ys]) simp
  next
    case False
    with Cons.prems obtain j where j: "index ys x = Some j" "i2 = Suc j" by auto
    from Cons.IH[OF j(1)] obtain pre suf where
      "ys = pre @ x # suf" "length pre = j" "x \<notin> set pre" by blast
    with False j(2) show ?thesis
      by (intro exI[of _ "y # pre"] exI[of _ suf]) simp
  qed
qed

lemma find_relationship_cases:
  "find_relationship anc t1 t2 = Inl UnrelatedTokens \<and> set (t1 # anc t1) \<inter> set (t2 # anc t2) = {}
   \<or> (\<exists>pre1 pre2 f suf1 suf2.
        t1 # anc t1 = pre1 @ f # suf1 \<and> t2 # anc t2 = pre2 @ f # suf2 \<and>
        set pre1 \<inter> set (t2 # anc t2) = {} \<and> f \<notin> set pre2 \<and>
        find_relationship anc t1 t2 =
          (if f # suf1 \<noteq> f # suf2 then Inl AmbiguousChain
           else Inr (rev (f # suf1), rev pre1, rev pre2)))"
proof (cases "first_common (t1 # anc t1) (t2 # anc t2)")
  case None
  then have "set (t1 # anc t1) \<inter> set (t2 # anc t2) = {}"
    by (simp only: first_common_None_iff)
  moreover from None have "find_relationship anc t1 t2 = Inl UnrelatedTokens"
    by (simp add: find_relationship_def)
  ultimately show ?thesis by blast
next
  case (Some i1)
  from first_common_split[OF Some] obtain pre1 f suf1 where
    c1: "t1 # anc t1 = pre1 @ f # suf1" "length pre1 = i1" "f \<in> set (t2 # anc t2)"
        "set pre1 \<inter> set (t2 # anc t2) = {}" by blast
  from c1(1,2) have nth: "(t1 # anc t1) ! i1 = f" by (metis nth_append_length)
  from c1(3) obtain i2 where i2: "index (t2 # anc t2) f = Some i2"
    using index_None_iff[of "t2 # anc t2" f] by (cases "index (t2 # anc t2) f") auto
  from index_split[OF i2] obtain pre2 suf2 where
    c2: "t2 # anc t2 = pre2 @ f # suf2" "length pre2 = i2" "f \<notin> set pre2" by blast
  have d1: "drop i1 (t1 # anc t1) = f # suf1" "take i1 (t1 # anc t1) = pre1"
    using c1(1,2) by (simp_all del: append_eq_Cons_conv Cons_eq_append_conv)
  have d2: "drop i2 (t2 # anc t2) = f # suf2" "take i2 (t2 # anc t2) = pre2"
    using c2(1,2) by (simp_all del: append_eq_Cons_conv Cons_eq_append_conv)
  have "find_relationship anc t1 t2 =
          (if f # suf1 \<noteq> f # suf2 then Inl AmbiguousChain
           else Inr (rev (f # suf1), rev pre1, rev pre2))"
    unfolding find_relationship_def Let_def Some option.case nth i2 d1 d2 ..
  with c1 c2 show ?thesis by blast
qed

subsection \<open>Paths from the root\<close>

lemma nodes_unfold: "nodes t = t # concat (map nodes (children t))"
  by (cases t) simp

lemma self_in_nodes: "t \<in> set (nodes t)"
  by (subst nodes_unfold) simp

lemma nodes_trans: "y \<in> set (nodes c) \<Longrightarrow> c \<in> set (children t) \<Longrightarrow> y \<in> set (nodes t)"
  by (subst nodes_unfold) auto

lemma path_to_unfold:
  "path_to r t =
     (if tid r = tid t then [r]
      else (case first_nonempty (map (\<lambda>c. path_to c t) (children r)) of
              [] \<Rightarrow> [] | q # qs \<Rightarrow> r # q # qs))"
  by (cases r) (simp split: list.split)

lemma first_nonempty_cases:
  "first_nonempty ps = [] \<and> (\<forall>p \<in> set ps. p = []) \<or> first_nonempty ps \<noteq> [] \<and> first_nonempty ps \<in> set ps"
  by (induction ps) auto

lemma path_to_nonempty_iff: "path_to r t \<noteq> [] \<longleftrightarrow> tid t \<in> tid ` set (nodes r)"
proof (induction r)
  case (Token i p d l orth cs)
  let ?r = "Token i p d l orth cs"
  let ?ps = "map (\<lambda>c. path_to c t) cs"
  show ?case
  proof (cases "i = tid t")
    case True
    then show ?thesis by force
  next
    case False
    have "first_nonempty ?ps \<noteq> [] \<longleftrightarrow> (\<exists>c \<in> set cs. path_to c t \<noteq> [])"
      using first_nonempty_cases[of ?ps] by auto
    also have "\<dots> \<longleftrightarrow> (\<exists>c \<in> set cs. tid t \<in> tid ` set (nodes c))"
      using Token.IH by blast
    finally have "first_nonempty ?ps \<noteq> [] \<longleftrightarrow> (\<exists>c \<in> set cs. tid t \<in> tid ` set (nodes c))" .
    moreover have "path_to ?r t \<noteq> [] \<longleftrightarrow> first_nonempty ?ps \<noteq> []"
      using False by (simp split: list.split)
    ultimately show ?thesis using False by auto
  qed
qed

lemma path_to_shape:
  "path_to r t \<noteq> [] \<Longrightarrow>
   \<exists>p. path_to r t = r # p \<and> descent r p \<and> tid (last (r # p)) = tid t \<and> set p \<subseteq> set (concat (map nodes (children r)))"
proof (induction r)
  case (Token i p d l orth cs)
  let ?r = "Token i p d l orth cs"
  let ?ps = "map (\<lambda>c. path_to c t) cs"
  show ?case
  proof (cases "i = tid t")
    case True
    then show ?thesis by simp
  next
    case False
    with Token.prems have ne: "first_nonempty ?ps \<noteq> []" by (simp split: list.splits)
    then have "first_nonempty ?ps \<in> set ?ps" using first_nonempty_cases[of ?ps] by blast
    then obtain c where c: "c \<in> set cs" "first_nonempty ?ps = path_to c t" by auto
    with ne have "path_to c t \<noteq> []" by simp
    from Token.IH[OF c(1) this] obtain q where
      q: "path_to c t = c # q" "descent c q" "tid (last (c # q)) = tid t"
         "set q \<subseteq> set (concat (map nodes (children c)))" by blast
    have "path_to ?r t = ?r # c # q" using False c(2) q(1) by simp
    moreover have "descent ?r (c # q)" using c(1) q(2) by simp
    moreover have "tid (last (?r # c # q)) = tid t" using q(3) by simp
    moreover have "set (c # q) \<subseteq> set (concat (map nodes (children ?r)))"
    proof -
      have "set (c # q) \<subseteq> set (nodes c)" using q(4) by (subst nodes_unfold) auto
      with c(1) show ?thesis by auto
    qed
    ultimately show ?thesis by blast
  qed
qed

lemma well_formed_unfold:
  "well_formed t \<longleftrightarrow>
     tid t \<notin> tid ` set (concat (map nodes (children t))) \<and>
     distinct (concat (map (\<lambda>c. map tid (nodes c)) (children t)))"
  unfolding well_formed_def by (subst nodes_unfold) (auto simp add: map_concat comp_def)

lemma distinct_concat_part: "distinct (concat (map g cs)) \<Longrightarrow> c \<in> set cs \<Longrightarrow> distinct (g c)"
  by (induction cs) auto

lemma well_formed_child: "well_formed t \<Longrightarrow> c \<in> set (children t) \<Longrightarrow> well_formed c"
  using distinct_concat_part[of "\<lambda>c. map tid (nodes c)" "children t" c]
  by (simp add: well_formed_unfold[of t]) (simp add: well_formed_def)

lemma first_nonempty_unique:
  "distinct (concat (map g cs)) \<Longrightarrow> c \<in> set cs \<Longrightarrow> x \<in> set (g c) \<Longrightarrow>
   (\<forall>c' \<in> set cs. h c' \<noteq> [] \<longleftrightarrow> x \<in> set (g c')) \<Longrightarrow>
   first_nonempty (map h cs) = h c"
proof (induction cs)
  case Nil
  then show ?case by simp
next
  case (Cons a rest)
  show ?case
  proof (cases "x \<in> set (g a)")
    case True
    have "c = a"
    proof (rule ccontr)
      assume "c \<noteq> a"
      with Cons.prems(2) have "c \<in> set rest" by simp
      with Cons.prems(3) have "x \<in> set (concat (map g rest))" by auto
      with True Cons.prems(1) show False by auto
    qed
    moreover from True Cons.prems(4) have "h a \<noteq> []" by simp
    ultimately show ?thesis by simp
  next
    case False
    with Cons.prems(3) have "c \<noteq> a" by auto
    with Cons.prems(2) have cr: "c \<in> set rest" by simp
    from False Cons.prems(4) have "h a = []" by simp
    moreover have "first_nonempty (map h rest) = h c"
      using Cons.IH[OF _ cr Cons.prems(3)] Cons.prems(1,4) by simp
    ultimately show ?thesis by simp
  qed
qed

lemma path_to_via_child:
  assumes wf: "well_formed r" and c: "c \<in> set (children r)" and y: "tid y \<in> tid ` set (nodes c)"
  shows "path_to r y = r # path_to c y"
proof -
  from y c have "tid y \<in> tid ` set (concat (map nodes (children r)))" by auto
  with wf have ne: "tid r \<noteq> tid y" by (auto simp: well_formed_unfold[of r])
  have d: "distinct (concat (map (\<lambda>c. map tid (nodes c)) (children r)))"
    using wf by (simp add: well_formed_unfold[of r])
  have "first_nonempty (map (\<lambda>c. path_to c y) (children r)) = path_to c y"
    by (rule first_nonempty_unique[OF d c, of "tid y"]) (use y in \<open>auto simp: path_to_nonempty_iff\<close>)
  moreover have "path_to c y \<noteq> []" using y by (simp add: path_to_nonempty_iff)
  ultimately show ?thesis using ne by (subst path_to_unfold) (simp split: list.split)
qed

lemma path_to_prefix:
  "well_formed r \<Longrightarrow> y \<in> set (path_to r x) \<Longrightarrow> \<exists>post. path_to r x = path_to r y @ post"
proof (induction r)
  case (Token i p d l orth cs)
  let ?r = "Token i p d l orth cs"
  from Token.prems(2) have ne: "path_to ?r x \<noteq> []" by auto
  show ?case
  proof (cases "y = ?r")
    case True
    then have "path_to ?r y = [?r]" by simp
    moreover from path_to_shape[OF ne] obtain q where "path_to ?r x = ?r # q" by blast
    ultimately show ?thesis by simp
  next
    case False
    show ?thesis
    proof (cases "i = tid x")
      case True
      with Token.prems(2) False show ?thesis by simp
    next
      case ix: False
      let ?ps = "map (\<lambda>c. path_to c x) cs"
      from ix ne have fne: "first_nonempty ?ps \<noteq> []" by (simp split: list.splits)
      then have "first_nonempty ?ps \<in> set ?ps" using first_nonempty_cases[of ?ps] by blast
      then obtain c where c: "c \<in> set cs" "first_nonempty ?ps = path_to c x" by auto
      with fne have cne: "path_to c x \<noteq> []" by simp
      have px: "path_to ?r x = ?r # path_to c x"
        using ix c(2) cne by (simp split: list.split)
      with Token.prems(2) False have yc: "y \<in> set (path_to c x)" by simp
      have wfc: "well_formed c" using well_formed_child[OF Token.prems(1)] c(1) by simp
      from Token.IH[OF c(1) wfc yc] obtain post where post: "path_to c x = path_to c y @ post" by blast
      from path_to_shape[OF cne] obtain q where
        q: "path_to c x = c # q" "set q \<subseteq> set (concat (map nodes (children c)))" by blast
      have "set (path_to c x) \<subseteq> set (nodes c)" using q by (subst nodes_unfold) auto
      with yc have "y \<in> set (nodes c)" by blast
      then have "tid y \<in> tid ` set (nodes c)" by blast
      from path_to_via_child[OF Token.prems(1) _ this] c(1)
      have "path_to ?r y = ?r # path_to c y" by simp
      with px post show ?thesis by simp
    qed
  qed
qed

lemma path_to_in_nodes: "set (path_to r t) \<subseteq> set (nodes r)"
proof (cases "path_to r t = []")
  case True
  then show ?thesis by simp
next
  case False
  from path_to_shape[OF False] show ?thesis by (subst nodes_unfold) auto
qed

lemma path_to_distinct: "well_formed r \<Longrightarrow> distinct (path_to r t)"
proof (induction r)
  case (Token i p d l orth cs)
  let ?r = "Token i p d l orth cs"
  show ?case
  proof (cases "path_to ?r t = [] \<or> i = tid t")
    case True
    then show ?thesis by auto
  next
    case False
    let ?ps = "map (\<lambda>c. path_to c t) cs"
    from False have fne: "first_nonempty ?ps \<noteq> []" by (auto split: list.splits)
    then have "first_nonempty ?ps \<in> set ?ps" using first_nonempty_cases[of ?ps] by blast
    then obtain c where c: "c \<in> set cs" "first_nonempty ?ps = path_to c t" by auto
    with fne have cne: "path_to c t \<noteq> []" by simp
    have px: "path_to ?r t = ?r # path_to c t"
      using False c(2) cne by (simp split: list.split)
    have wfc: "well_formed c" using well_formed_child[OF Token.prems(1)] c(1) by simp
    have "?r \<notin> set (path_to c t)"
    proof
      assume "?r \<in> set (path_to c t)"
      with path_to_in_nodes[of c t] have "?r \<in> set (nodes c)" by blast
      with c(1) have "tid ?r \<in> tid ` set (concat (map nodes (children ?r)))" by force
      with Token.prems show False using well_formed_unfold[of ?r] by blast
    qed
    with Token.IH[OF c(1) wfc] px show ?thesis by simp
  qed
qed

lemma tid_inj: "well_formed r \<Longrightarrow> x \<in> set (nodes r) \<Longrightarrow> y \<in> set (nodes r) \<Longrightarrow> tid x = tid y \<Longrightarrow> x = y"
  unfolding well_formed_def by (metis distinct_map inj_onD)

lemma path_to_last: 
  assumes "well_formed r" "t \<in> set (nodes r)"
  shows "path_to r t \<noteq> [] \<and> last (path_to r t) = t \<and> hd (path_to r t) = r"
proof -
  from assms(2) have ne: "path_to r t \<noteq> []" by (simp add: path_to_nonempty_iff)
  from path_to_shape[OF ne] obtain p where p: "path_to r t = r # p" "tid (last (r # p)) = tid t" by blast
  have "last (r # p) \<in> set (nodes r)" using path_to_in_nodes[of r t] p(1) last_in_set[of "r # p"] by auto
  from tid_inj[OF assms(1) this assms(2) p(2)] p(1) ne show ?thesis by simp
qed

lemma chain_eq:
  assumes "well_formed r" "t \<in> set (nodes r)"
  shows "t # ancestors r t = rev (path_to r t)"
proof -
  from path_to_last[OF assms] have "rev (path_to r t) \<noteq> []" "hd (rev (path_to r t)) = t"
    by (simp_all add: hd_rev)
  then show ?thesis unfolding ancestors_def by (metis list.collapse)
qed

subsection \<open>Chains in a well-formed tree\<close>

lemma distinct_split_unique:
  "distinct (p @ f # s) \<Longrightarrow> p @ f # s = p' @ f # s' \<Longrightarrow> p = p' \<and> s = s'"
proof (induction p arbitrary: p')
  case Nil
  then show ?case by (cases p') auto
next
  case (Cons x xs)
  show ?case
  proof (cases p')
    case Nil
    with Cons.prems show ?thesis by auto
  next
    case (Cons y ys)
    with Cons.prems have xy: "x = y" and eq: "xs @ f # s = ys @ f # s'" by simp_all
    from Cons.prems(1) have "distinct (xs @ f # s)" by simp
    from Cons.IH[OF this eq] xy Cons show ?thesis by simp
  qed
qed

lemma chain_suffix:
  assumes wf: "well_formed r" and x: "x \<in> set (nodes r)" and y: "y \<in> set (x # ancestors r x)"
  shows "y \<in> set (nodes r) \<and> (\<exists>pre. x # ancestors r x = pre @ y # ancestors r y)"
proof -
  from y have yp: "y \<in> set (path_to r x)" by (simp only: chain_eq[OF wf x] set_rev)
  with path_to_in_nodes[of r x] have yn: "y \<in> set (nodes r)" by blast
  from path_to_prefix[OF wf yp] obtain post where "path_to r x = path_to r y @ post" by blast
  then have "rev (path_to r x) = rev post @ rev (path_to r y)" by simp
  then have "x # ancestors r x = rev post @ y # ancestors r y"
    by (simp only: chain_eq[OF wf x] chain_eq[OF wf yn])
  with yn show ?thesis by blast
qed

lemma chain_distinct:
  "well_formed r \<Longrightarrow> x \<in> set (nodes r) \<Longrightarrow> distinct (x # ancestors r x)"
  by (simp only: chain_eq distinct_rev path_to_distinct)

lemma root_in_chain:
  assumes "well_formed r" "x \<in> set (nodes r)"
  shows "r \<in> set (x # ancestors r x)"
proof -
  from path_to_last[OF assms] have "r \<in> set (path_to r x)" by (metis hd_in_set)
  then show ?thesis by (simp only: chain_eq[OF assms] set_rev)
qed

lemma find_relationship_tree:
  assumes wf: "well_formed r" and a: "a \<in> set (nodes r)" and b: "b \<in> set (nodes r)"
  shows "\<exists>f pre1 pre2.
           find_relationship (ancestors r) a b = Inr (rev (f # ancestors r f), rev pre1, rev pre2) \<and>
           a # ancestors r a = pre1 @ f # ancestors r f \<and>
           b # ancestors r b = pre2 @ f # ancestors r f \<and>
           set pre1 \<inter> set (b # ancestors r b) = {} \<and>
           set pre2 \<inter> set (a # ancestors r a) = {} \<and>
           f \<in> set (nodes r)"
proof -
  let ?c1 = "a # ancestors r a" and ?c2 = "b # ancestors r b"
  from root_in_chain[OF wf a] root_in_chain[OF wf b]
  have "set ?c1 \<inter> set ?c2 \<noteq> {}" by blast
  with find_relationship_cases[of "ancestors r" a b]
  obtain pre1 pre2 f suf1 suf2 where
    c1: "?c1 = pre1 @ f # suf1" and c2: "?c2 = pre2 @ f # suf2" and
    dis: "set pre1 \<inter> set ?c2 = {}" and
    res: "find_relationship (ancestors r) a b =
            (if f # suf1 \<noteq> f # suf2 then Inl AmbiguousChain
             else Inr (rev (f # suf1), rev pre1, rev pre2))"
    by blast
  from c1 have f1: "f \<in> set ?c1" by simp
  from c2 have f2: "f \<in> set ?c2" by simp
  from chain_suffix[OF wf a f1] obtain p1 where
    fn: "f \<in> set (nodes r)" and p1: "?c1 = p1 @ f # ancestors r f" by blast
  from chain_suffix[OF wf b f2] obtain p2 where p2: "?c2 = p2 @ f # ancestors r f" by blast
  have d1: "distinct (pre1 @ f # suf1)" using chain_distinct[OF wf a] c1 by simp
  have d2: "distinct (pre2 @ f # suf2)" using chain_distinct[OF wf b] c2 by simp
  from distinct_split_unique[OF d1, of p1 "ancestors r f"] c1 p1
  have s1: "suf1 = ancestors r f" by simp
  from distinct_split_unique[OF d2, of p2 "ancestors r f"] c2 p2
  have s2: "suf2 = ancestors r f" by simp
  have "set pre2 \<inter> set ?c1 = {}"
  proof (rule ccontr)
    assume "set pre2 \<inter> set ?c1 \<noteq> {}"
    then obtain x where x: "x \<in> set pre2" "x \<in> set ?c1" by blast
    from x(1) c2 have xc2: "x \<in> set ?c2" by simp
    with dis have "x \<notin> set pre1" by blast
    with x(2) c1 have "x \<in> set (f # suf1)" by (simp only: set_append) blast
    with s1 s2 have "x \<in> set (f # suf2)" by simp
    with x(1) d2 show False by auto
  qed
  with res c1 c2 dis s1 s2 fn show ?thesis by auto
qed

lemma common_suffix_unique:
  assumes "c1 = p1 @ s" "c2 = p2 @ s" "set p1 \<inter> set c2 = {}"
      and "c1 = q2 @ s'" "c2 = q1 @ s'" "set q1 \<inter> set c1 = {}"
  shows "s = s' \<and> p1 = q2 \<and> p2 = q1"
proof -
  from assms(1,4) have "p1 @ s = q2 @ s'" by simp
  then obtain us where us: "p1 = q2 @ us \<and> us @ s = s' \<or> p1 @ us = q2 \<and> s = us @ s'"
    by (auto simp: append_eq_append_conv2)
  then show ?thesis
  proof
    assume h: "p1 = q2 @ us \<and> us @ s = s'"
    with assms(2,5) have "set us \<subseteq> set c2" by auto
    moreover from h have "set us \<subseteq> set p1" by auto
    ultimately have "us = []" using assms(3) by (cases us) auto
    with h assms show ?thesis by auto
  next
    assume h: "p1 @ us = q2 \<and> s = us @ s'"
    with assms(2,5) have "p2 @ us = q1" by auto
    then have "set us \<subseteq> set q1" by auto
    moreover from h assms(1) have "set us \<subseteq> set c1" by auto
    ultimately have "us = []" using assms(6) by (cases us) auto
    with h assms show ?thesis by auto
  qed
qed

subsection \<open>The relationship of two tokens of a tree\<close>

lemmas ex_defs = ex_the_def ex_startup_def ex_for_def ex_money_def ex_balderton_def ex_raise_def

lemma ex_well_formed: "well_formed ex_raise"
  by (simp add: well_formed_def ex_defs)

lemma ex_members: "ex_balderton \<in> set (nodes ex_raise)" "ex_startup \<in> set (nodes ex_raise)"
  "ex_money \<in> set (nodes ex_raise)" "ex_the \<in> set (nodes ex_raise)"
  by (simp_all add: ex_defs)

lemma ex_chains:
  "ancestors ex_raise ex_balderton = [ex_raise]"
  "ancestors ex_raise ex_startup = [ex_for, ex_raise]"
  "ancestors ex_raise ex_the = [ex_startup, ex_for, ex_raise]"
  "ancestors ex_raise ex_raise = []"
  by (simp_all add: ancestors_def ex_defs)

lemma Relationship_tree:
  assumes wf: "well_formed r" and a: "a \<in> set (nodes r)" and b: "b \<in> set (nodes r)"
  shows "\<exists>f pre1 pre2.
           Relationship (ancestors r) a b =
             Inr \<lparr>token1 = a, token2 = b, common_ancestors = rev (f # ancestors r f),
                  branch1 = rev pre1, branch2 = rev pre2\<rparr> \<and>
           a # ancestors r a = pre1 @ f # ancestors r f \<and>
           b # ancestors r b = pre2 @ f # ancestors r f \<and>
           set pre1 \<inter> set (b # ancestors r b) = {} \<and>
           set pre2 \<inter> set (a # ancestors r a) = {} \<and>
           f \<in> set (nodes r)"
proof -
  from find_relationship_tree[OF assms] obtain f pre1 pre2 where
    h: "find_relationship (ancestors r) a b = Inr (rev (f # ancestors r f), rev pre1, rev pre2)"
       "a # ancestors r a = pre1 @ f # ancestors r f"
       "b # ancestors r b = pre2 @ f # ancestors r f"
       "set pre1 \<inter> set (b # ancestors r b) = {}"
       "set pre2 \<inter> set (a # ancestors r a) = {}"
       "f \<in> set (nodes r)" by blast
  from h(1) have "Relationship (ancestors r) a b =
             Inr \<lparr>token1 = a, token2 = b, common_ancestors = rev (f # ancestors r f),
                  branch1 = rev pre1, branch2 = rev pre2\<rparr>"
    by (simp add: Relationship_def)
  with h(2-) show ?thesis by blast
qed

lemma forking_node_rev: "common_ancestors rel = rev (f # fs) \<Longrightarrow> forking_node rel = Inr f"
  by (simp add: forking_node_def)

lemma no_mutual_ancestors:
  assumes wf: "well_formed r" and f: "f \<in> set (nodes r)" and d: "d \<in> set (f # ancestors r f)"
  shows "f \<notin> set (ancestors r d)"
proof
  assume fd: "f \<in> set (ancestors r d)"
  from chain_suffix[OF wf f d] obtain p where
    dn: "d \<in> set (nodes r)" and p: "f # ancestors r f = p @ d # ancestors r d" by blast
  from fd have "f \<in> set (d # ancestors r d)" by simp
  from chain_suffix[OF wf dn this] obtain p' where p': "d # ancestors r d = p' @ f # ancestors r f"
    by blast
  from p p' have "length (f # ancestors r f) = length p + length p' + length (f # ancestors r f)"
    by (metis length_append add.assoc)
  then have "p = []" by simp
  with p have "f = d" "ancestors r f = ancestors r d" by simp_all
  with fd chain_distinct[OF wf f] show False by simp
qed

text \<open>
  Claim C3. For tokens \<open>a\<close> and \<open>b\<close> of one well-formed tree the relationship is
  built, and its forking node lies on the self-to-root chain of \<open>a\<close> and on that of
  \<open>b\<close>. It is the lowest such token: every common element \<open>d\<close> of the two chains lies
  on the chain of the forking node, and the forking node is not a proper ancestor of \<open>d\<close>.
\<close>
theorem fork_is_lowest_common_ancestor:
  assumes "well_formed r" and "a \<in> set (nodes r)" and "b \<in> set (nodes r)"
  shows "\<exists>rel f. Relationship (ancestors r) a b = Inr rel \<and> forking_node rel = Inr f \<and>
           f \<in> set (a # ancestors r a) \<and> f \<in> set (b # ancestors r b) \<and>
           (\<forall>d. d \<in> set (a # ancestors r a) \<and> d \<in> set (b # ancestors r b) \<longrightarrow>
                d \<in> set (f # ancestors r f) \<and> f \<notin> set (ancestors r d))"
proof -
  from Relationship_tree[OF assms] obtain f pre1 pre2 where
    rel: "Relationship (ancestors r) a b =
             Inr \<lparr>token1 = a, token2 = b, common_ancestors = rev (f # ancestors r f),
                  branch1 = rev pre1, branch2 = rev pre2\<rparr>" and
    c1: "a # ancestors r a = pre1 @ f # ancestors r f" and
    c2: "b # ancestors r b = pre2 @ f # ancestors r f" and
    dis: "set pre1 \<inter> set (b # ancestors r b) = {}" and
    fn: "f \<in> set (nodes r)" by blast
  let ?rel = "\<lparr>token1 = a, token2 = b, common_ancestors = rev (f # ancestors r f),
                  branch1 = rev pre1, branch2 = rev pre2\<rparr>"
  have fk: "forking_node ?rel = Inr f" by (rule forking_node_rev) simp
  have f1: "f \<in> set (a # ancestors r a)" by (subst c1) simp
  have f2: "f \<in> set (b # ancestors r b)" by (subst c2) simp
  have low: "d \<in> set (f # ancestors r f) \<and> f \<notin> set (ancestors r d)"
    if d: "d \<in> set (a # ancestors r a)" "d \<in> set (b # ancestors r b)" for d
  proof -
    from d(2) dis have "d \<notin> set pre1" by blast
    moreover from d(1) have "d \<in> set (pre1 @ f # ancestors r f)" by (simp only: c1)
    ultimately have df: "d \<in> set (f # ancestors r f)" by (simp only: set_append) blast
    with no_mutual_ancestors[OF assms(1) fn] show ?thesis by blast
  qed
  from rel fk f1 f2 low show ?thesis by blast
qed

theorem fork_is_lowest_common_ancestor_witness:
  "well_formed ex_raise \<and> ex_balderton \<in> set (nodes ex_raise) \<and> ex_the \<in> set (nodes ex_raise) \<and>
   (\<exists>rel. Relationship (ancestors ex_raise) ex_balderton ex_the = Inr rel \<and>
          forking_node rel = Inr ex_raise \<and>
          (\<forall>d. d \<in> set (ex_balderton # ancestors ex_raise ex_balderton) \<and>
               d \<in> set (ex_the # ancestors ex_raise ex_the) \<longrightarrow>
               d \<in> set (ex_raise # ancestors ex_raise ex_raise) \<and>
               ex_raise \<notin> set (ancestors ex_raise d)))"
proof -
  from fork_is_lowest_common_ancestor[OF ex_well_formed ex_members(1) ex_members(4)]
  obtain rel f where
    h: "Relationship (ancestors ex_raise) ex_balderton ex_the = Inr rel" "forking_node rel = Inr f"
       "f \<in> set (ex_balderton # ancestors ex_raise ex_balderton)"
       "f \<in> set (ex_the # ancestors ex_raise ex_the)"
       "\<forall>d. d \<in> set (ex_balderton # ancestors ex_raise ex_balderton) \<and>
               d \<in> set (ex_the # ancestors ex_raise ex_the) \<longrightarrow>
               d \<in> set (f # ancestors ex_raise f) \<and> f \<notin> set (ancestors ex_raise d)"
    by blast
  from h(3,4) have "f = ex_raise" by (auto simp: ex_chains) (simp_all add: ex_defs)
  with h ex_well_formed ex_members show ?thesis by blast
qed

text \<open>
  Claim C5. For tokens of one well-formed tree both relationships are built, in either
  order of the two tokens: both have a forking node, it is the same token, the common
  ancestors are the same, and the two branches are exchanged.
\<close>
theorem relationship_symmetric:
  assumes "well_formed r" and "a \<in> set (nodes r)" and "b \<in> set (nodes r)"
  shows "\<exists>rel rel' f. Relationship (ancestors r) a b = Inr rel \<and>
           Relationship (ancestors r) b a = Inr rel' \<and>
           forking_node rel = Inr f \<and> forking_node rel' = Inr f \<and>
           common_ancestors rel' = common_ancestors rel \<and>
           branch1 rel' = branch2 rel \<and> branch2 rel' = branch1 rel"
proof -
  from Relationship_tree[OF assms] obtain f pre1 pre2 where
    rel: "Relationship (ancestors r) a b =
             Inr \<lparr>token1 = a, token2 = b, common_ancestors = rev (f # ancestors r f),
                  branch1 = rev pre1, branch2 = rev pre2\<rparr>" and
    c1: "a # ancestors r a = pre1 @ f # ancestors r f" and
    c2: "b # ancestors r b = pre2 @ f # ancestors r f" and
    dis: "set pre1 \<inter> set (b # ancestors r b) = {}" by blast
  from Relationship_tree[OF assms(1) assms(3) assms(2)] obtain g q1 q2 where
    rel': "Relationship (ancestors r) b a =
             Inr \<lparr>token1 = b, token2 = a, common_ancestors = rev (g # ancestors r g),
                  branch1 = rev q1, branch2 = rev q2\<rparr>" and
    c2': "b # ancestors r b = q1 @ g # ancestors r g" and
    c1': "a # ancestors r a = q2 @ g # ancestors r g" and
    dis': "set q1 \<inter> set (a # ancestors r a) = {}" by blast
  from common_suffix_unique[OF c1 c2 dis c1' c2' dis']
  have eq: "f # ancestors r f = g # ancestors r g" "pre1 = q2" "pre2 = q1" by simp_all
  let ?rel = "\<lparr>token1 = a, token2 = b, common_ancestors = rev (f # ancestors r f),
                  branch1 = rev pre1, branch2 = rev pre2\<rparr>"
  let ?rel' = "\<lparr>token1 = b, token2 = a, common_ancestors = rev (g # ancestors r g),
                  branch1 = rev q1, branch2 = rev q2\<rparr>"
  from eq(1) have gf: "g = f" by simp
  have "forking_node ?rel = Inr f" by (rule forking_node_rev) simp
  moreover have "forking_node ?rel' = Inr f" unfolding gf by (rule forking_node_rev) simp
  moreover have "common_ancestors ?rel' = common_ancestors ?rel" using eq(1) by simp
  moreover have "branch1 ?rel' = branch2 ?rel" "branch2 ?rel' = branch1 ?rel" using eq(2,3) by simp_all
  ultimately show ?thesis using rel rel' by blast
qed

theorem relationship_symmetric_witness:
  "well_formed ex_raise \<and> ex_balderton \<in> set (nodes ex_raise) \<and> ex_the \<in> set (nodes ex_raise) \<and>
   (\<exists>rel rel'. Relationship (ancestors ex_raise) ex_balderton ex_the = Inr rel \<and>
           Relationship (ancestors ex_raise) ex_the ex_balderton = Inr rel' \<and>
           forking_node rel = Inr ex_raise \<and> forking_node rel' = Inr ex_raise \<and>
           common_ancestors rel' = common_ancestors rel \<and>
           branch1 rel' = branch2 rel \<and> branch2 rel' = branch1 rel \<and>
           branch1 rel = [ex_balderton] \<and> branch2 rel = [ex_for, ex_startup, ex_the])"
proof -
  from relationship_symmetric[OF ex_well_formed ex_members(1) ex_members(4)]
  obtain rel rel' f where
    h: "Relationship (ancestors ex_raise) ex_balderton ex_the = Inr rel"
       "Relationship (ancestors ex_raise) ex_the ex_balderton = Inr rel'"
       "forking_node rel = Inr f" "forking_node rel' = Inr f"
       "common_ancestors rel' = common_ancestors rel"
       "branch1 rel' = branch2 rel" "branch2 rel' = branch1 rel" by blast
  have "Relationship (ancestors ex_raise) ex_balderton ex_the =
          Inr \<lparr>token1 = ex_balderton, token2 = ex_the, common_ancestors = [ex_raise],
               branch1 = [ex_balderton], branch2 = [ex_for, ex_startup, ex_the]\<rparr>"
    by (simp add: Relationship_def find_relationship_def ex_chains) (simp add: ex_defs)
  with h(1) have v: "branch1 rel = [ex_balderton]" "branch2 rel = [ex_for, ex_startup, ex_the]"
    "forking_node rel = Inr ex_raise"
    by (auto simp: forking_node_def)
  with h(3) have "f = ex_raise" by simp
  with h v ex_well_formed ex_members show ?thesis by blast
qed

text \<open>
  Claim C7. \<open>find_relationship\<close>, and with it the constructor, fails with the error
  "unrelated tokens" exactly when the two chains (the token first, then its ancestors)
  share no element. So for unrelated tokens no result is returned, and for related tokens
  this error is not raised.
\<close>
theorem unrelated_tokens_iff:
  "(find_relationship anc t1 t2 = Inl UnrelatedTokens
      \<longleftrightarrow> set (t1 # anc t1) \<inter> set (t2 # anc t2) = {}) \<and>
   (Relationship anc t1 t2 = Inl UnrelatedTokens
      \<longleftrightarrow> set (t1 # anc t1) \<inter> set (t2 # anc t2) = {})"
proof -
  have fr: "find_relationship anc t1 t2 = Inl UnrelatedTokens
      \<longleftrightarrow> set (t1 # anc t1) \<inter> set (t2 # anc t2) = {}"
  proof
    assume u: "find_relationship anc t1 t2 = Inl UnrelatedTokens"
    show "set (t1 # anc t1) \<inter> set (t2 # anc t2) = {}"
    proof (rule ccontr)
      assume "set (t1 # anc t1) \<inter> set (t2 # anc t2) \<noteq> {}"
      with find_relationship_cases[of anc t1 t2]
      obtain pre1 pre2 f suf1 suf2 where
        "find_relationship anc t1 t2 =
          (if f # suf1 \<noteq> f # suf2 then Inl AmbiguousChain
           else Inr (rev (f # suf1), rev pre1, rev pre2))" by blast
      with u show False by (simp split: if_splits)
    qed
  next
    assume d: "set (t1 # anc t1) \<inter> set (t2 # anc t2) = {}"
    then have "first_common (t1 # anc t1) (t2 # anc t2) = None"
      by (simp only: first_common_None_iff)
    then show "find_relationship anc t1 t2 = Inl UnrelatedTokens"
      by (simp add: find_relationship_def)
  qed
  have "Relationship anc t1 t2 = Inl UnrelatedTokens \<longleftrightarrow>
        find_relationship anc t1 t2 = Inl UnrelatedTokens"
    by (simp add: Relationship_def split: sum.splits prod.splits)
  with fr show ?thesis by simp
qed

theorem unrelated_tokens_iff_witness:
  "Relationship ex_heads 0 4 = Inl UnrelatedTokens \<and>
   set (0 # ex_heads 0) \<inter> set (4 # ex_heads 4) = {} \<and>
   Relationship ex_heads 0 2 \<noteq> Inl UnrelatedTokens \<and>
   set (0 # ex_heads 0) \<inter> set (2 # ex_heads 2) \<noteq> {}"
proof -
  have d: "set (0 # ex_heads 0) \<inter> set (4 # ex_heads 4) = {}" by (simp add: ex_heads_def)
  have n: "set (0 # ex_heads 0) \<inter> set (2 # ex_heads 2) \<noteq> {}" by (simp add: ex_heads_def)
  from d n unrelated_tokens_iff[of ex_heads 0 4] unrelated_tokens_iff[of ex_heads 0 2]
  show ?thesis by blast
qed

text \<open>
  Claim C8. For two tokens of one well-formed tree the comparison of the two chains from
  the first shared token upwards never fails: the error "ambiguity about the chain before
  it forks" is not raised. For any ancestor function, that error is raised only when a
  first shared token exists and the two chains differ from it upwards.
\<close>
theorem chain_check_passes_on_trees:
  "(well_formed r \<and> a \<in> set (nodes r) \<and> b \<in> set (nodes r) \<longrightarrow>
      find_relationship (ancestors r) a b \<noteq> Inl AmbiguousChain \<and>
      Relationship (ancestors r) a b \<noteq> Inl AmbiguousChain) \<and>
   (find_relationship anc t1 t2 = Inl AmbiguousChain \<longrightarrow>
      (\<exists>i1 i2. first_common (t1 # anc t1) (t2 # anc t2) = Some i1 \<and>
               index (t2 # anc t2) ((t1 # anc t1) ! i1) = Some i2 \<and>
               drop i1 (t1 # anc t1) \<noteq> drop i2 (t2 # anc t2)))"
proof (intro conjI impI)
  assume h: "well_formed r \<and> a \<in> set (nodes r) \<and> b \<in> set (nodes r)"
  then have wf: "well_formed r" and a: "a \<in> set (nodes r)" and b: "b \<in> set (nodes r)"
    by simp_all
  from find_relationship_tree[OF wf a b]
  show "find_relationship (ancestors r) a b \<noteq> Inl AmbiguousChain" by auto
  from Relationship_tree[OF wf a b]
  show "Relationship (ancestors r) a b \<noteq> Inl AmbiguousChain" by auto
next
  assume "find_relationship anc t1 t2 = Inl AmbiguousChain"
  then show "\<exists>i1 i2. first_common (t1 # anc t1) (t2 # anc t2) = Some i1 \<and>
               index (t2 # anc t2) ((t1 # anc t1) ! i1) = Some i2 \<and>
               drop i1 (t1 # anc t1) \<noteq> drop i2 (t2 # anc t2)"
    unfolding find_relationship_def Let_def
    by (cases "first_common (t1 # anc t1) (t2 # anc t2)";
        cases "index (t2 # anc t2) ((t1 # anc t1) ! the (first_common (t1 # anc t1) (t2 # anc t2)))")
       (simp_all del: first_common.simps index.simps drop_Suc_Cons nth_Cons_Suc split: if_splits)
qed

theorem chain_check_passes_on_trees_witness:
  "well_formed ex_raise \<and> ex_balderton \<in> set (nodes ex_raise) \<and> ex_the \<in> set (nodes ex_raise) \<and>
   find_relationship (ancestors ex_raise) ex_balderton ex_the \<noteq> Inl AmbiguousChain \<and>
   find_relationship ex_broken 0 3 = Inl AmbiguousChain \<and>
   (\<exists>i1 i2. first_common (0 # ex_broken 0) (3 # ex_broken 3) = Some i1 \<and>
            index (3 # ex_broken 3) ((0 # ex_broken 0) ! i1) = Some i2 \<and>
            drop i1 (0 # ex_broken 0) \<noteq> drop i2 (3 # ex_broken 3))"
proof -
  have b: "find_relationship ex_broken 0 3 = Inl AmbiguousChain"
    by (simp add: find_relationship_def ex_broken_def)
  from chain_check_passes_on_trees[of ex_raise ex_balderton ex_the ex_broken 0 3]
       ex_well_formed ex_members b
  show ?thesis by blast
qed

text \<open>
  Claim C10. For a token \<open>a\<close> of a well-formed tree, \<open>Relationship(a, a)\<close> is built
  without error: the forking node is \<open>a\<close>, both branches are empty, and the common
  ancestors are the whole chain of \<open>a\<close> from the root of the tree down to \<open>a\<close>.
\<close>
theorem relationship_of_token_with_itself:
  assumes "well_formed r" and "a \<in> set (nodes r)"
  shows "\<exists>rel. Relationship (ancestors r) a a = Inr rel \<and> forking_node rel = Inr a \<and>
           branch1 rel = [] \<and> branch2 rel = [] \<and>
           common_ancestors rel = rev (a # ancestors r a) \<and>
           common_ancestors rel = path_to r a \<and>
           hd (common_ancestors rel) = r \<and> last (common_ancestors rel) = a"
proof -
  have "find_relationship (ancestors r) a a = Inr (rev (a # ancestors r a), [], [])"
    by (simp add: find_relationship_def)
  then have rel: "Relationship (ancestors r) a a =
      Inr \<lparr>token1 = a, token2 = a, common_ancestors = rev (a # ancestors r a),
           branch1 = [], branch2 = []\<rparr>"
    by (simp add: Relationship_def)
  let ?rel = "\<lparr>token1 = a, token2 = a, common_ancestors = rev (a # ancestors r a),
           branch1 = [], branch2 = []\<rparr>"
  have fk: "forking_node ?rel = Inr a" by (rule forking_node_rev) simp
  have p: "rev (a # ancestors r a) = path_to r a" by (simp only: chain_eq[OF assms] rev_rev_ident)
  from path_to_last[OF assms] have "hd (path_to r a) = r" "last (path_to r a) = a" by simp_all
  with rel fk p show ?thesis by (intro exI[of _ ?rel]) simp
qed

theorem relationship_of_token_with_itself_witness:
  "well_formed ex_raise \<and> ex_startup \<in> set (nodes ex_raise) \<and>
   (\<exists>rel. Relationship (ancestors ex_raise) ex_startup ex_startup = Inr rel \<and>
          forking_node rel = Inr ex_startup \<and> branch1 rel = [] \<and> branch2 rel = [] \<and>
          common_ancestors rel = [ex_raise, ex_for, ex_startup])"
proof -
  from relationship_of_token_with_itself[OF ex_well_formed ex_members(2)]
  obtain rel where
    h: "Relationship (ancestors ex_raise) ex_startup ex_startup = Inr rel"
       "forking_node rel = Inr ex_startup" "branch1 rel = []" "branch2 rel = []"
       "common_ancestors rel = rev (ex_startup # ancestors ex_raise ex_startup)" by blast
  from h(5) have "common_ancestors rel = [ex_raise, ex_for, ex_startup]" by (simp add: ex_chains)
  with h ex_well_formed ex_members show ?thesis by blast
qed

subsection \<open>The matcher\<close>

lemma search_eq_filter:
  "search_sentence_for_node r np = filter (\<lambda>n. match_node_pattern n np) (nodes r)"
proof (induction r)
  case (Token i p d l orth cs)
  have "concat (map (\<lambda>child. search_sentence_for_node child np) cs) =
        concat (map (\<lambda>child. filter (\<lambda>n. match_node_pattern n np) (nodes child)) cs)"
    using Token.IH by (simp cong: map_cong)
  then show ?case by (simp add: filter_concat comp_def)
qed

lemma fold_add_sum_list:
  "fold (\<lambda>x (acc::int). acc + g x) xs a = a + sum_list (map g xs)"
  by (induction xs arbitrary: a) simp_all

lemma search_sentence_for_pattern_sum:
  "search_sentence_for_pattern sent pat =
     sum_list (map (\<lambda>f. follow_branch f (p_branch1 pat) * follow_branch f (p_branch2 pat))
                   (search_sentence_for_node (root sent) (common_ancestor pat)))"
  unfolding search_sentence_for_pattern_def by (simp add: fold_add_sum_list)

lemma follow_branch_nonneg: "0 \<le> follow_branch node bs"
proof (induction bs arbitrary: node)
  case Nil
  then show ?case by simp
next
  case (Cons b bs)
  have "0 \<le> sum_list (map (\<lambda>m. follow_branch m bs)
                 (filter (\<lambda>child. match_node_pattern child b) (children node)))"
    by (rule sum_list_nonneg) (auto simp: Cons.IH)
  then show ?case by (simp add: Let_def)
qed

lemma member_le_sum_list_int:
  fixes g :: "'a \<Rightarrow> int"
  assumes "x \<in> set xs" and "\<And>y. y \<in> set xs \<Longrightarrow> 0 \<le> g y"
  shows "g x \<le> sum_list (map g xs)"
proof -
  from assms(1) obtain ys zs where xs: "xs = ys @ x # zs" by (auto dest: split_list)
  have "0 \<le> sum_list (map g ys)" "0 \<le> sum_list (map g zs)"
    using assms(2) by (auto intro!: sum_list_nonneg simp: xs)
  then show ?thesis by (simp add: xs)
qed

lemma follow_branch_descent:
  "descent node path \<Longrightarrow>
   1 \<le> follow_branch node (map (\<lambda>n. [(Pos, t_pos n), (Dep, t_dep n)]) path)"
proof (induction path arbitrary: node)
  case Nil
  then show ?case by simp
next
  case (Cons c cs)
  let ?b = "[(Pos, t_pos c), (Dep, t_dep c)]"
  let ?rest = "map (\<lambda>n. [(Pos, t_pos n), (Dep, t_dep n)]) cs"
  let ?matches = "filter (\<lambda>child. match_node_pattern child ?b) (children node)"
  from Cons.prems have c: "c \<in> set (children node)" and d: "descent c cs" by simp_all
  have "match_node_pattern c ?b" by (simp add: match_node_pattern_def)
  with c have cm: "c \<in> set ?matches" by simp
  then have ne: "?matches \<noteq> []" by (metis empty_iff empty_set)
  have "1 \<le> follow_branch c ?rest" by (rule Cons.IH[OF d])
  also have "\<dots> \<le> sum_list (map (\<lambda>m. follow_branch m ?rest) ?matches)"
    by (rule member_le_sum_list_int[OF cm]) (rule follow_branch_nonneg)
  finally show ?case using ne by (simp add: Let_def)
qed

lemma descent_append:
  "descent node (xs @ ys) \<longleftrightarrow> descent node xs \<and> descent (last (node # xs)) ys"
  by (induction xs arbitrary: node) auto

lemma branch_is_descent:
  assumes wf: "well_formed r" and a: "a \<in> set (nodes r)" and f: "f \<in> set (nodes r)"
      and c: "a # ancestors r a = pre @ f # ancestors r f"
  shows "descent f (rev pre)"
proof -
  from c have "rev (a # ancestors r a) = rev (f # ancestors r f) @ rev pre" by simp
  then have pa: "path_to r a = path_to r f @ rev pre"
    by (simp only: chain_eq[OF wf a] chain_eq[OF wf f] rev_rev_ident)
  from path_to_last[OF wf a] have "path_to r a \<noteq> []" by simp
  from path_to_shape[OF this] obtain p where p: "path_to r a = r # p" "descent r p" by blast
  from path_to_last[OF wf f] obtain pf where pf: "path_to r f = r # pf" "last (r # pf) = f"
    by (cases "path_to r f") auto
  from pa p(1) pf(1) have "p = pf @ rev pre" by simp
  with p(2) pf(2) show ?thesis by (simp add: descent_append)
qed

text \<open>
  Claim C6. For two tokens of a well-formed sentence tree the relationship is built, its
  pattern is extracted, and counting that pattern in the same sentence gives at least 1.
\<close>
theorem pattern_matches_own_sentence:
  assumes "well_formed (root sent)" and "a \<in> set (nodes (root sent))"
      and "b \<in> set (nodes (root sent))"
  shows "\<exists>rel pat. Relationship (ancestors (root sent)) a b = Inr rel \<and>
           matching_pattern rel = Inr pat \<and> 1 \<le> search_sentence_for_pattern sent pat"
proof -
  let ?r = "root sent"
  let ?spec = "\<lambda>n. [(Pos, t_pos n), (Dep, t_dep n)]"
  from Relationship_tree[OF assms] obtain f pre1 pre2 where
    rel: "Relationship (ancestors ?r) a b =
             Inr \<lparr>token1 = a, token2 = b, common_ancestors = rev (f # ancestors ?r f),
                  branch1 = rev pre1, branch2 = rev pre2\<rparr>" and
    c1: "a # ancestors ?r a = pre1 @ f # ancestors ?r f" and
    fn: "f \<in> set (nodes ?r)" by blast
  let ?rel = "\<lparr>token1 = a, token2 = b, common_ancestors = rev (f # ancestors ?r f),
                  branch1 = rev pre1, branch2 = rev pre2\<rparr>"
  let ?pat = "\<lparr>common_ancestor = [(Pos, t_pos f), (Lemma, t_lemma f)],
               p_branch1 = map ?spec (rev pre1), p_branch2 = map ?spec (rev pre1)\<rparr>"
  have fk: "forking_node ?rel = Inr f" by (rule forking_node_rev) simp
  then have mp: "matching_pattern ?rel = Inr ?pat" by (simp add: matching_pattern_def)
  have d: "descent f (rev pre1)" by (rule branch_is_descent[OF assms(1,2) fn c1])
  let ?g = "\<lambda>f. follow_branch f (p_branch1 ?pat) * follow_branch f (p_branch2 ?pat)"
  let ?found = "search_sentence_for_node ?r (common_ancestor ?pat)"
  have "match_node_pattern f (common_ancestor ?pat)" by (simp add: match_node_pattern_def)
  with fn have ff: "f \<in> set ?found" by (simp add: search_eq_filter)
  from follow_branch_descent[OF d] have "1 \<le> follow_branch f (map ?spec (rev pre1))" .
  then have "1 * 1 \<le> follow_branch f (map ?spec (rev pre1)) * follow_branch f (map ?spec (rev pre1))"
    by (intro mult_mono) simp_all
  then have "1 \<le> ?g f" by simp
  also have "?g f \<le> sum_list (map ?g ?found)"
    by (rule member_le_sum_list_int[OF ff]) (simp add: follow_branch_nonneg)
  also have "\<dots> = search_sentence_for_pattern sent ?pat"
    by (simp only: search_sentence_for_pattern_sum)
  finally have "1 \<le> search_sentence_for_pattern sent ?pat" .
  with rel mp show ?thesis by blast
qed

subsection \<open>Counting descent paths\<close>

lemma descent_paths_Nil: "descent_paths node [] = {[]}"
  by (auto simp: descent_paths_def)

lemma descent_paths_Cons:
  "descent_paths node (b # bs) =
     (\<Union>c \<in> set (filter (\<lambda>child. match_node_pattern child b) (children node)).
        (#) c ` descent_paths c bs)"
  by (auto simp: descent_paths_def list_all2_Cons2)

lemma finite_descent_paths: "finite (descent_paths node bs)"
  by (induction bs arbitrary: node) (simp_all add: descent_paths_Nil descent_paths_Cons)

lemma distinct_concat_nonempty:
  "distinct (concat (map g cs)) \<Longrightarrow> (\<And>c. c \<in> set cs \<Longrightarrow> g c \<noteq> []) \<Longrightarrow> distinct cs"
proof (induction cs)
  case Nil
  then show ?case by simp
next
  case (Cons a rest)
  have "a \<notin> set rest"
  proof
    assume ar: "a \<in> set rest"
    from Cons.prems(2)[of a] obtain x where x: "x \<in> set (g a)" by (cases "g a") auto
    with ar have "x \<in> set (concat (map g rest))" by auto
    with x Cons.prems(1) show False by auto
  qed
  moreover have "distinct rest" using Cons by simp
  ultimately show ?case by simp
qed

lemma well_formed_children_distinct: "well_formed node \<Longrightarrow> distinct (children node)"
proof -
  assume "well_formed node"
  then have "distinct (concat (map (\<lambda>c. map tid (nodes c)) (children node)))"
    by (simp add: well_formed_unfold[of node])
  then show ?thesis
    by (rule distinct_concat_nonempty) (subst nodes_unfold, simp)
qed

lemma well_formed_nodes_distinct: "well_formed r \<Longrightarrow> distinct (nodes r)"
  unfolding well_formed_def by (simp add: distinct_map)

lemma well_formed_subtree: "well_formed r \<Longrightarrow> n \<in> set (nodes r) \<Longrightarrow> well_formed n"
proof (induction r)
  case (Token i p d l orth cs)
  let ?r = "Token i p d l orth cs"
  show ?case
  proof (cases "n = ?r")
    case True
    with Token.prems show ?thesis by simp
  next
    case False
    with Token.prems(2) obtain c where c: "c \<in> set cs" "n \<in> set (nodes c)" by auto
    from well_formed_child[OF Token.prems(1)] c(1) have "well_formed c" by simp
    from Token.IH[OF c(1) this c(2)] show ?thesis .
  qed
qed

lemma follow_branch_card:
  "well_formed node \<Longrightarrow> follow_branch node bs = int (card (descent_paths node bs))"
proof (induction bs arbitrary: node)
  case Nil
  then show ?case by (simp add: descent_paths_Nil)
next
  case (Cons b bs)
  let ?ms = "filter (\<lambda>child. match_node_pattern child b) (children node)"
  have dms: "distinct ?ms" using well_formed_children_distinct[OF Cons.prems] by simp
  have wfc: "well_formed c" if "c \<in> set ?ms" for c
    using that well_formed_child[OF Cons.prems] by simp
  have "card (descent_paths node (b # bs)) =
        card (\<Union>c \<in> set ?ms. (#) c ` descent_paths c bs)"
    by (simp only: descent_paths_Cons)
  also have "\<dots> = (\<Sum>c \<in> set ?ms. card ((#) c ` descent_paths c bs))"
    by (rule card_UN_disjoint) (auto simp: finite_descent_paths)
  also have "\<dots> = (\<Sum>c \<in> set ?ms. card (descent_paths c bs))"
    by (rule sum.cong) (simp_all add: card_image)
  finally have card: "card (descent_paths node (b # bs)) =
                      (\<Sum>c \<in> set ?ms. card (descent_paths c bs))" .
  have "follow_branch node (b # bs) = sum_list (map (\<lambda>m. follow_branch m bs) ?ms)"
    by (simp add: Let_def)
  also have "\<dots> = sum_list (map (\<lambda>m. int (card (descent_paths m bs))) ?ms)"
    by (rule arg_cong[where f = sum_list], rule map_cong) (simp_all add: Cons.IH wfc)
  also have "\<dots> = (\<Sum>c \<in> set ?ms. int (card (descent_paths c bs)))"
    by (rule sum_list_distinct_conv_sum_set[OF dms])
  also have "\<dots> = int (card (descent_paths node (b # bs)))"
    by (simp only: card of_nat_sum)
  finally show ?case .
qed

text \<open>
  Claim C1. On a well-formed sentence tree the count is the sum, over all tokens of the
  tree that match the node pattern of the common ancestor, of the number of descent paths
  for the first branch times the number of descent paths for the second branch.
\<close>
theorem count_is_sum_over_forks:
  assumes "well_formed (root sent)"
  shows "search_sentence_for_pattern sent pat =
     (\<Sum>fork \<in> {n \<in> set (nodes (root sent)). match_node_pattern n (common_ancestor pat)}.
        int (card (descent_paths fork (p_branch1 pat))) *
        int (card (descent_paths fork (p_branch2 pat))))"
proof -
  let ?found = "filter (\<lambda>n. match_node_pattern n (common_ancestor pat)) (nodes (root sent))"
  let ?g = "\<lambda>f. follow_branch f (p_branch1 pat) * follow_branch f (p_branch2 pat)"
  let ?h = "\<lambda>f. int (card (descent_paths f (p_branch1 pat))) *
                  int (card (descent_paths f (p_branch2 pat)))"
  have d: "distinct ?found" using well_formed_nodes_distinct[OF assms] by simp
  have "search_sentence_for_pattern sent pat = sum_list (map ?g ?found)"
    by (simp only: search_sentence_for_pattern_sum search_eq_filter)
  also have "\<dots> = sum_list (map ?h ?found)"
  proof (rule arg_cong[where f = sum_list], rule map_cong)
    fix f assume "f \<in> set ?found"
    then have "well_formed f" using well_formed_subtree[OF assms] by simp
    then show "?g f = ?h f" by (simp only: follow_branch_card)
  qed simp
  also have "\<dots> = sum ?h (set ?found)" by (rule sum_list_distinct_conv_sum_set[OF d])
  also have "set ?found = {n \<in> set (nodes (root sent)). match_node_pattern n (common_ancestor pat)}"
    by simp
  finally show ?thesis .
qed

subsection \<open>Independence of the literal text\<close>











text \<open>
  Claim C4. \<open>follow_branch\<close> returns 1 for the empty branch. When no child of the node
  matches the first entry of a non-empty branch it returns 0, and so does the product with
  the count of any other branch. When this holds at every fork found for a pattern whose
  first branch is non-empty, the total count is 0.
\<close>
theorem follow_branch_boundaries:
  "follow_branch node [] = 1 \<and>
   ((\<forall>child \<in> set (children node). \<not> match_node_pattern child b) \<longrightarrow>
      follow_branch node (b # bs) = 0 \<and>
      follow_branch node (b # bs) * follow_branch node other = 0) \<and>
   ((\<forall>fork \<in> set (search_sentence_for_node (root sent) (common_ancestor pat)).
       \<forall>child \<in> set (children fork). \<not> match_node_pattern child b) \<and>
    p_branch1 pat = b # bs \<longrightarrow>
      search_sentence_for_pattern sent pat = 0)"
proof -
  have zero: "follow_branch n (b # bs) = 0"
    if "\<forall>child \<in> set (children n). \<not> match_node_pattern child b" for n
  proof -
    from that have "filter (\<lambda>child. match_node_pattern child b) (children n) = []"
      by (simp add: filter_empty_conv)
    then show ?thesis by (simp add: Let_def)
  qed
  have total: "search_sentence_for_pattern sent pat = 0"
    if h: "\<forall>fork \<in> set (search_sentence_for_node (root sent) (common_ancestor pat)).
             \<forall>child \<in> set (children fork). \<not> match_node_pattern child b"
       and p: "p_branch1 pat = b # bs"
  proof -
    have "map (\<lambda>f. follow_branch f (p_branch1 pat) * follow_branch f (p_branch2 pat))
              (search_sentence_for_node (root sent) (common_ancestor pat)) =
          map (\<lambda>f. 0) (search_sentence_for_node (root sent) (common_ancestor pat))"
      by (rule map_cong) (simp_all add: p zero h)
    then show ?thesis by (simp only: search_sentence_for_pattern_sum) simp
  qed
  show ?thesis using zero[of node] total by simp
qed

subsection \<open>The examples\<close>

lemmas ex2_defs = ex2_investor_def ex2_fund_def ex2_hope_def ex2_raise_def ex2_sentence_def
  ex3_sentence_def ex_pattern_def ex_pattern_amod_def

lemma ex2_count: "search_sentence_for_pattern ex2_sentence ex_pattern = 2"
  by (simp add: search_sentence_for_pattern_def ex2_defs match_node_pattern_def)

theorem count_is_sum_over_forks_witness:
  "well_formed (root ex2_sentence) \<and>
   (\<Sum>fork \<in> {n \<in> set (nodes (root ex2_sentence)).
                 match_node_pattern n (common_ancestor ex_pattern)}.
        int (card (descent_paths fork (p_branch1 ex_pattern))) *
        int (card (descent_paths fork (p_branch2 ex_pattern)))) = 2"
proof -
  have wf: "well_formed (root ex2_sentence)" by (simp add: well_formed_def ex2_defs)
  from count_is_sum_over_forks[OF wf, of ex_pattern] ex2_count wf show ?thesis by simp
qed

theorem pattern_matches_own_sentence_witness:
  "well_formed (root ex_sentence) \<and> ex_balderton \<in> set (nodes (root ex_sentence)) \<and>
   ex_the \<in> set (nodes (root ex_sentence)) \<and>
   (\<exists>rel pat. Relationship (ancestors (root ex_sentence)) ex_balderton ex_the = Inr rel \<and>
       matching_pattern rel = Inr pat \<and> 1 \<le> search_sentence_for_pattern ex_sentence pat)"
proof -
  have r: "root ex_sentence = ex_raise" by (simp add: ex_sentence_def)
  have h: "well_formed (root ex_sentence)" "ex_balderton \<in> set (nodes (root ex_sentence))"
    "ex_the \<in> set (nodes (root ex_sentence))"
    using ex_well_formed ex_members by (simp_all only: r)
  from pattern_matches_own_sentence[OF h] h show ?thesis by blast
qed




theorem follow_branch_boundaries_witness:
  "filter (\<lambda>child. match_node_pattern child [(Pos, ''ADJ''), (Dep, ''amod'')])
          (children ex2_raise) = [] \<and>
   follow_branch ex2_raise [[(Pos, ''NOUN''), (Dep, ''dobj'')]] = 2 \<and>
   follow_branch ex2_raise [[(Pos, ''ADJ''), (Dep, ''amod'')]]
     * follow_branch ex2_raise [[(Pos, ''NOUN''), (Dep, ''dobj'')]] = 0 \<and>
   search_sentence_for_pattern ex2_sentence ex_pattern_amod = 0"
proof -
  have h1: "\<forall>child \<in> set (children ex2_raise).
              \<not> match_node_pattern child [(Pos, ''ADJ''), (Dep, ''amod'')]"
    by (simp add: ex2_defs match_node_pattern_def)
  have h2: "(\<forall>fork \<in> set (search_sentence_for_node (root ex2_sentence) (common_ancestor ex_pattern_amod)).
       \<forall>child \<in> set (children fork). \<not> match_node_pattern child [(Pos, ''ADJ''), (Dep, ''amod'')]) \<and>
       p_branch1 ex_pattern_amod = [(Pos, ''ADJ''), (Dep, ''amod'')] # []"
    by (simp add: ex2_defs match_node_pattern_def)
  have v: "follow_branch ex2_raise [[(Pos, ''NOUN''), (Dep, ''dobj'')]] = 2"
    by (simp add: ex2_defs match_node_pattern_def)
  from follow_branch_boundaries[of ex2_raise "[(Pos, ''ADJ''), (Dep, ''amod'')]" "[]"
         "[[(Pos, ''NOUN''), (Dep, ''dobj'')]]" ex2_sentence ex_pattern_amod] h1 h2 v
  show ?thesis by (simp add: filter_empty_conv)
qed

text \<open>
  Claim C2. The pattern extracted from the relationship of the subject and the object of
  the example sentence: the fork gives \<open>pos\<close> and \<open>lemma\<close>, the entry \<open>branch1\<close>
  lists \<open>pos\<close> and \<open>dep\<close> of the tokens of the first branch, and the entry \<open>branch2\<close>
  repeats the first branch, where the second branch would give the object's \<open>pos\<close> and
  \<open>dep\<close>.
\<close>
theorem matching_pattern_branch2_from_branch1:
  "Relationship (ancestors ex_raise) ex_balderton ex_money = Inr ex_rel \<and>
   matching_pattern ex_rel =
     Inr \<lparr>common_ancestor = [(Pos, ''VERB''), (Lemma, ''raise'')],
          p_branch1 = [[(Pos, ''PROPN''), (Dep, ''nsubj'')]],
          p_branch2 = [[(Pos, ''PROPN''), (Dep, ''nsubj'')]]\<rparr> \<and>
   map (\<lambda>node. [(Pos, t_pos node), (Dep, t_dep node)]) (branch2 ex_rel) =
     [[(Pos, ''NOUN''), (Dep, ''dobj'')]]"
proof -
  have "ancestors ex_raise ex_money = [ex_raise]" by (simp add: ancestors_def ex_defs)
  then have "Relationship (ancestors ex_raise) ex_balderton ex_money = Inr ex_rel"
    by (simp add: Relationship_def find_relationship_def ex_chains ex_rel_def) (simp add: ex_defs)
  moreover have "matching_pattern ex_rel =
     Inr \<lparr>common_ancestor = [(Pos, ''VERB''), (Lemma, ''raise'')],
          p_branch1 = [[(Pos, ''PROPN''), (Dep, ''nsubj'')]],
          p_branch2 = [[(Pos, ''PROPN''), (Dep, ''nsubj'')]]\<rparr>"
    by (simp add: matching_pattern_def forking_node_def ex_rel_def ex_defs)
  moreover have "map (\<lambda>node. [(Pos, t_pos node), (Dep, t_dep node)]) (branch2 ex_rel) =
     [[(Pos, ''NOUN''), (Dep, ''dobj'')]]"
    by (simp add: ex_rel_def ex_defs)
  ultimately show ?thesis by blast
qed

end
